theory Spec2Isabelle
  imports Main "HOL-Library.Word" "HOL-Library.Multiset"
begin

unbundle bit_operations_syntax

section \<open>The pathfinder's data structures (native/src/pf.h)\<close>

text \<open>
  A shallow embedding of the self-contained classes of \<^verbatim>\<open>pf.h\<close>:
  \<^verbatim>\<open>world_position_t\<close>, \<^verbatim>\<open>open_closed_t\<close>, \<^verbatim>\<open>room_info_t\<close> and \<^verbatim>\<open>heap_t\<close>.

  Conventions.
  \<^item> \<^verbatim>\<open>uint8_t\<close>, \<^verbatim>\<open>uint16_t\<close> and \<^verbatim>\<open>unsigned int\<close> are words of 8, 16 and 32 bits.
    C++ promotes operands narrower than \<^verbatim>\<open>int\<close> to \<^verbatim>\<open>int\<close> before arithmetic, so an
    expression such as \<^verbatim>\<open>yy - 1\<close> on a \<^verbatim>\<open>uint16_t\<close> is computed on \<^typ>\<open>int\<close> (through
    \<^const>\<open>uint\<close>) and only the conversion back to the narrow type reduces it
    (\<^const>\<open>word_of_int\<close>).
  \<^item> A \<^verbatim>\<open>std::array\<close> or a raw buffer is a list; a null pointer is \<^const>\<open>None\<close>.
    Reading or writing outside a buffer is undefined behaviour in C++; where a function
    returns a value the model returns \<^const>\<open>None\<close> there, and where it updates a state the
    theorems assume the indices to be inside the arrays.
  \<^item> Member functions that modify the object take the object and return the new one.
\<close>

type_synonym u8 = "8 word"
type_synonym u16 = "16 word"
type_synonym u32 = "32 word"

subsection \<open>\<^verbatim>\<open>world_position_t\<close>\<close>

record world_position_t =
  xx :: u16
  yy :: u16

datatype direction_t =
  TOP | TOP_RIGHT | RIGHT | BOTTOM_RIGHT | BOTTOM | BOTTOM_LEFT | LEFT | TOP_LEFT

text \<open>The constructor \<^verbatim>\<open>world_position_t(uint16_t xx, uint16_t yy)\<close>, applied to \<^verbatim>\<open>int\<close>
  arguments: the conversion to \<^verbatim>\<open>uint16_t\<close> reduces modulo \<open>2^16\<close>.\<close>

definition world_position :: "int \<Rightarrow> int \<Rightarrow> world_position_t" where
  "world_position x y = \<lparr>xx = word_of_int x, yy = word_of_int y\<rparr>"

fun position_in_direction :: "world_position_t \<Rightarrow> direction_t \<Rightarrow> world_position_t" where
  "position_in_direction this TOP =
     world_position (uint (xx this)) (uint (yy this) - 1)"
| "position_in_direction this TOP_RIGHT =
     world_position (uint (xx this) + 1) (uint (yy this) - 1)"
| "position_in_direction this RIGHT =
     world_position (uint (xx this) + 1) (uint (yy this))"
| "position_in_direction this BOTTOM_RIGHT =
     world_position (uint (xx this) + 1) (uint (yy this) + 1)"
| "position_in_direction this BOTTOM =
     world_position (uint (xx this)) (uint (yy this) + 1)"
| "position_in_direction this BOTTOM_LEFT =
     world_position (uint (xx this) - 1) (uint (yy this) + 1)"
| "position_in_direction this LEFT =
     world_position (uint (xx this) - 1) (uint (yy this))"
| "position_in_direction this TOP_LEFT =
     world_position (uint (xx this) - 1) (uint (yy this) - 1)"

text \<open>The conversion of an \<^verbatim>\<open>int\<close> to \<^verbatim>\<open>int8_t\<close> (as in \<^verbatim>\<open>int8_t dx = pos.xx - this->xx\<close>)
  keeps the low eight bits and reads them as two's complement.\<close>

definition int8 :: "int \<Rightarrow> int" where
  "int8 v = sint (word_of_int v :: 8 word)"

text \<open>\<^verbatim>\<open>direction_to\<close> ends with \<^verbatim>\<open>return (direction_t)-1\<close>, a value that is none of the
  eight enumerators: \<^const>\<open>None\<close>.\<close>

definition direction_to :: "world_position_t \<Rightarrow> world_position_t \<Rightarrow> direction_t option" where
  "direction_to this pos =
    (let dx = int8 (uint (xx pos) - uint (xx this));
         dy = int8 (uint (yy pos) - uint (yy this))
     in if dx > 0 then
          (if dy > 0 then Some BOTTOM_RIGHT
           else if dy < 0 then Some TOP_RIGHT
           else Some RIGHT)
        else if dx < 0 then
          (if dy > 0 then Some BOTTOM_LEFT
           else if dy < 0 then Some TOP_LEFT
           else Some LEFT)
        else
          (if dy > 0 then Some BOTTOM
           else if dy < 0 then Some TOP
           else None))"

definition range_to :: "world_position_t \<Rightarrow> world_position_t \<Rightarrow> u16" where
  "range_to this pos = word_of_int (max
     (if uint (xx pos) > uint (xx this)
      then uint (xx pos) - uint (xx this) else uint (xx this) - uint (xx pos))
     (if uint (yy pos) > uint (yy this)
      then uint (yy pos) - uint (yy this) else uint (yy this) - uint (yy pos)))"

text \<open>The horizontal and vertical component of a compass direction, read off the offsets
  that \<^const>\<open>position_in_direction\<close> adds (lemma \<open>position_in_direction_components\<close>
  below): \<open>yy\<close> grows towards the bottom.\<close>

fun dir_dx :: "direction_t \<Rightarrow> int" where
  "dir_dx TOP = 0"
| "dir_dx TOP_RIGHT = 1"
| "dir_dx RIGHT = 1"
| "dir_dx BOTTOM_RIGHT = 1"
| "dir_dx BOTTOM = 0"
| "dir_dx BOTTOM_LEFT = - 1"
| "dir_dx LEFT = - 1"
| "dir_dx TOP_LEFT = - 1"

fun dir_dy :: "direction_t \<Rightarrow> int" where
  "dir_dy TOP = - 1"
| "dir_dy TOP_RIGHT = - 1"
| "dir_dy RIGHT = 0"
| "dir_dy BOTTOM_RIGHT = 1"
| "dir_dy BOTTOM = 1"
| "dir_dy BOTTOM_LEFT = 1"
| "dir_dy LEFT = 0"
| "dir_dy TOP_LEFT = - 1"

subsection \<open>\<^verbatim>\<open>open_closed_t\<close>\<close>

text \<open>\<^verbatim>\<open>std::array<unsigned int, capacity> list; unsigned int marker\<close>. The template
  parameter \<open>capacity\<close> is the length of \<open>list\<close>.\<close>

record open_closed_t =
  list :: "u32 list"
  marker :: u32

definition open_closed_t_new :: "nat \<Rightarrow> open_closed_t" where
  "open_closed_t_new capacity = \<lparr>list = replicate capacity 0, marker = 1\<rparr>"

text \<open>\<^verbatim>\<open>std::numeric_limits<unsigned int>::max()\<close> is \<open>4294967295\<close>.\<close>

definition clear :: "open_closed_t \<Rightarrow> open_closed_t" where
  "clear s =
    (if (4294967295 - 2 :: u32) \<le> marker s
     then \<lparr>list = replicate (length (list s)) 0, marker = 1\<rparr>
     else s\<lparr>marker := marker s + 2\<rparr>)"

definition is_open :: "open_closed_t \<Rightarrow> nat \<Rightarrow> bool" where
  "is_open s index = (list s ! index = marker s)"

definition is_closed :: "open_closed_t \<Rightarrow> nat \<Rightarrow> bool" where
  "is_closed s index = (list s ! index = marker s + 1)"

definition open_oc :: "open_closed_t \<Rightarrow> nat \<Rightarrow> open_closed_t" where
  "open_oc s index = s\<lparr>list := (list s)[index := marker s]\<rparr>"

definition close_oc :: "open_closed_t \<Rightarrow> nat \<Rightarrow> open_closed_t" where
  "close_oc s index = s\<lparr>list := (list s)[index := marker s + 1]\<rparr>"

text \<open>Sequences of calls on one instance. A call is well formed for a capacity when its
  index lies inside the array.\<close>

datatype oc_call = Open nat | Close nat | Clear

fun oc_call_ok :: "nat \<Rightarrow> oc_call \<Rightarrow> bool" where
  "oc_call_ok capacity (Open i) = (i < capacity)"
| "oc_call_ok capacity (Close i) = (i < capacity)"
| "oc_call_ok capacity Clear = True"

fun oc_call_run :: "open_closed_t \<Rightarrow> oc_call \<Rightarrow> open_closed_t" where
  "oc_call_run s (Open i) = open_oc s i"
| "oc_call_run s (Close i) = close_oc s i"
| "oc_call_run s Clear = clear s"

definition oc_run :: "nat \<Rightarrow> oc_call list \<Rightarrow> open_closed_t" where
  "oc_run capacity calls = foldl oc_call_run (open_closed_t_new capacity) calls"

text \<open>No slot holds a stamp newer than the current generation's \<open>marker + 1\<close>.\<close>

definition oc_inv :: "nat \<Rightarrow> open_closed_t \<Rightarrow> bool" where
  "oc_inv capacity s \<longleftrightarrow>
     length (list s) = capacity \<and> list_all (\<lambda>e. unat e \<le> unat (marker s) + 1) (list s)"

subsection \<open>\<^verbatim>\<open>room_info_t\<close>\<close>

text \<open>\<^verbatim>\<open>map_position_t\<close> is a union of a \<^verbatim>\<open>uint16_t id\<close> with a pair of bytes; only its
  identity matters here.\<close>

type_synonym map_position_t = u16

text \<open>\<^verbatim>\<open>uint8_t* terrain\<close> may be null; \<^verbatim>\<open>cost_matrix\<close> is set by the constructor and is
  never null afterwards. The cost matrix is addressed as rows of 50 bytes.\<close>

record room_info_t =
  terrain :: "u8 list option"
  cost_matrix :: "u8 list"
  pos :: map_position_t

text \<open>Modelled from the spec: the definition of the static member
  \<^verbatim>\<open>room_info_t::cost_matrix0\<close> is not in \<^verbatim>\<open>pf.h\<close>, which only declares it as
  \<^verbatim>\<open>static uint8_t cost_matrix0[2500]\<close>. The spec says that the cost-matrix default array
  is all zero (as an object of static storage duration is when it has no initialiser).\<close>

definition cost_matrix0 :: "u8 list" where
  "cost_matrix0 = replicate 2500 0"

definition room_info_t_new ::
  "u8 list option \<Rightarrow> u8 list option \<Rightarrow> map_position_t \<Rightarrow> room_info_t" where
  "room_info_t_new terrain_ptr cost_matrix_ptr map_pos =
     \<lparr>terrain = terrain_ptr,
      cost_matrix = (case cost_matrix_ptr of None \<Rightarrow> cost_matrix0 | Some m \<Rightarrow> m),
      pos = map_pos\<rparr>"

text \<open>\<^verbatim>\<open>look\<close>. \<^verbatim>\<open>cost_matrix[xx][yy]\<close> is byte \<open>xx * 50 + yy\<close> of the buffer. In
  \<^verbatim>\<open>0x03 & terrain[index / 4] >> (index % 4 * 2)\<close> the shift binds tighter than the
  mask, and the operands are promoted to \<^verbatim>\<open>int\<close>. A read through a null pointer or past
  the end of a buffer is \<^const>\<open>None\<close>.\<close>

definition look :: "room_info_t \<Rightarrow> u8 \<Rightarrow> u8 \<Rightarrow> u8 option" where
  "look r x y =
    (let c = unat x * 50 + unat y in
     if length (cost_matrix r) \<le> c then None
     else if cost_matrix r ! c \<noteq> 0 then Some (cost_matrix r ! c)
     else
       (let index = (word_of_nat (unat x * 50 + unat y) :: u16) in
        case terrain r of
          None \<Rightarrow> None
        | Some t \<Rightarrow>
            if length t \<le> unat index div 4 then None
            else Some (word_of_int
              (3 AND drop_bit (unat index mod 4 * 2) (uint (t ! (unat index div 4)))))))"

text \<open>The claim's description of the terrain code of tile \<open>i\<close>: the two bits
  \<open>(i mod 4) * 2\<close> and \<open>(i mod 4) * 2 + 1\<close> of byte \<open>i div 4\<close> of the bitmap, as a number
  between 0 and 3.\<close>

definition terrain_code :: "u8 list \<Rightarrow> nat \<Rightarrow> u8" where
  "terrain_code t i =
     of_bool (bit (t ! (i div 4)) (i mod 4 * 2))
     + 2 * of_bool (bit (t ! (i div 4)) (i mod 4 * 2 + 1))"

subsection \<open>\<^verbatim>\<open>heap_t\<close>\<close>

text \<open>\<^verbatim>\<open>template <class index_t, class priority_t, size_t capacity> class heap_t\<close>.
  The index type is \<^typ>\<open>nat\<close>, the priority type any linear order, and \<open>capacity\<close> is
  the length of \<open>priorities\<close>. \<^verbatim>\<open>std::array<index_t, 2500> heap\<close> always has 2500 slots,
  of which slot 0 is never used; \<^verbatim>\<open>size_t size_\<close> is the field \<open>size'\<close>, a \<^typ>\<open>nat\<close>
  with the 64-bit wrap-around of \<^verbatim>\<open>--size_\<close> and \<^verbatim>\<open>++size_\<close> written out.\<close>

record 'p heap_t =
  priorities :: "'p list"
  heap :: "nat list"
  size' :: nat

text \<open>The constructor \<^verbatim>\<open>heap_t() : size_(0) {}\<close> leaves both arrays uninitialised: their
  contents are parameters.\<close>

definition heap_t_new :: "'p list \<Rightarrow> nat list \<Rightarrow> 'p heap_t" where
  "heap_t_new ps hp = \<lparr>priorities = ps, heap = hp, size' = 0\<rparr>"

definition empty :: "'p heap_t \<Rightarrow> bool" where
  "empty h = (size' h = 0)"

text \<open>\<^verbatim>\<open>std::swap(heap[i], heap[j])\<close>.\<close>

definition swap :: "nat list \<Rightarrow> nat \<Rightarrow> nat \<Rightarrow> nat list" where
  "swap hp i j = hp[i := hp ! j, j := hp ! i]"

text \<open>The body of the \<^verbatim>\<open>do\<close> loop of \<^verbatim>\<open>pop\<close> up to the swap: from \<open>uu\<close> it computes the
  new \<open>vv\<close> (\<^verbatim>\<open>uu << 1\<close> is \<open>2 * uu\<close>).\<close>

definition sift_choice :: "('p::linorder) list \<Rightarrow> nat \<Rightarrow> nat list \<Rightarrow> nat \<Rightarrow> nat" where
  "sift_choice ps sz hp uu =
    (if 2 * uu + 1 \<le> sz then
       (let vv = (if ps ! (hp ! uu) \<ge> ps ! (hp ! (2 * uu)) then 2 * uu else uu)
        in if ps ! (hp ! vv) \<ge> ps ! (hp ! (2 * uu + 1)) then 2 * uu + 1 else vv)
     else if 2 * uu \<le> sz then
       (if ps ! (hp ! uu) \<ge> ps ! (hp ! (2 * uu)) then 2 * uu else uu)
     else uu)"

text \<open>The \<^verbatim>\<open>do { ... } while (true)\<close> loop of \<^verbatim>\<open>pop\<close>: it ends at the \<^verbatim>\<open>break\<close>, when \<open>vv\<close>
  did not move. Every other iteration moves \<open>vv\<close> to a larger slot that is at most the
  size, so the loop terminates.\<close>

function sift_down :: "('p::linorder) list \<Rightarrow> nat \<Rightarrow> nat list \<Rightarrow> nat \<Rightarrow> nat list" where
  "sift_down ps sz hp vv =
    (let uu = vv; vv = sift_choice ps sz hp uu
     in if uu \<noteq> vv then sift_down ps sz (swap hp uu vv) vv else hp)"
  by pat_completeness auto
termination
proof (relation "measure (\<lambda>(ps :: ('p::linorder) list, sz, hp :: nat list, vv). sz - vv)")
  show "wf (measure (\<lambda>(ps :: ('p::linorder) list, sz, hp :: nat list, vv). sz - vv))"
    by simp
next
  fix ps :: "('p::linorder) list" and sz hp vv x xa
  assume "x = vv" and "xa = sift_choice ps sz hp x" and "x \<noteq> xa"
  then have "(xa = 2 * vv \<and> 2 * vv \<le> sz) \<or> (xa = 2 * vv + 1 \<and> 2 * vv + 1 \<le> sz)"
    by (auto simp: sift_choice_def Let_def split: if_splits)
  then show "((ps, sz, swap hp x xa, xa), ps, sz, hp, vv)
      \<in> measure (\<lambda>(ps, sz, hp, vv). sz - vv)"
    using \<open>x = vv\<close> \<open>x \<noteq> xa\<close> by auto
qed

text \<open>\<^verbatim>\<open>pop\<close> does not check for an empty heap: \<^verbatim>\<open>--size_\<close> then wraps to \<open>2^64 - 1\<close> and
  the loop reads outside the array (undefined behaviour; no theorem below covers it).\<close>

definition pop :: "('p::linorder) heap_t \<Rightarrow> (nat \<times> 'p) \<times> 'p heap_t" where
  "pop h =
    (let ret = (heap h ! 1, priorities h ! (heap h ! 1));
         hp = (heap h)[1 := heap h ! size' h];
         sz = (if size' h = 0 then 2 ^ 64 - 1 else size' h - 1)
     in (ret, \<lparr>priorities = priorities h, heap = sift_down (priorities h) sz hp 1,
               size' = sz\<rparr>))"

text \<open>\<^verbatim>\<open>bubble_up\<close>: \<^verbatim>\<open>while (ii != 1)\<close>, with \<^verbatim>\<open>ii >> 1\<close> as \<open>ii div 2\<close>. Called with
  \<open>ii = 0\<close> the loop would never end (slot 0 is its own parent), so the function is
  partial: \<^const>\<open>None\<close> is "does not return".\<close>

partial_function (option) bubble_up ::
  "('p::linorder) list \<Rightarrow> nat list \<Rightarrow> nat \<Rightarrow> nat list option" where
  "bubble_up ps hp ii =
    (if ii \<noteq> 1 then
       (if ps ! (hp ! ii) \<le> ps ! (hp ! (ii div 2))
        then bubble_up ps (swap hp ii (ii div 2)) (ii div 2)
        else Some hp)
     else Some hp)"

text \<open>\<^verbatim>\<open>throw std::runtime_error("Max heap")\<close>.\<close>

datatype error = Max_heap

text \<open>\<^verbatim>\<open>insert\<close>; \<^verbatim>\<open>heap.size()\<close> is the length of the array.\<close>

definition insert_heap ::
  "('p::linorder) heap_t \<Rightarrow> nat \<Rightarrow> 'p \<Rightarrow> (error + 'p heap_t) option" where
  "insert_heap h index priority =
    (if size' h = length (heap h) - 1 then Some (Inl Max_heap)
     else
       (let ps = (priorities h)[index := priority];
            sz = (size' h + 1) mod 2 ^ 64;
            hp = (heap h)[sz := index]
        in case bubble_up ps hp sz of
             None \<Rightarrow> None
           | Some hp' \<Rightarrow> Some (Inr \<lparr>priorities = ps, heap = hp', size' = sz\<rparr>)))"

text \<open>\<^verbatim>\<open>update\<close>: the loop \<^verbatim>\<open>for (size_t ii = size_; ii > 0; --ii)\<close> is the recursion of
  \<open>update_from\<close> on \<open>ii\<close>; falling out of the loop changes nothing.\<close>

fun update_from :: "('p::linorder) heap_t \<Rightarrow> nat \<Rightarrow> 'p \<Rightarrow> nat \<Rightarrow> 'p heap_t option" where
  "update_from h index priority 0 = Some h"
| "update_from h index priority (Suc n) =
    (if heap h ! Suc n = index then
       (let ps = (priorities h)[index := priority]
        in case bubble_up ps (heap h) (Suc n) of
             None \<Rightarrow> None
           | Some hp' \<Rightarrow> Some (h\<lparr>priorities := ps, heap := hp'\<rparr>))
     else update_from h index priority n)"

definition update_heap :: "('p::linorder) heap_t \<Rightarrow> nat \<Rightarrow> 'p \<Rightarrow> 'p heap_t option" where
  "update_heap h index priority = update_from h index priority (size' h)"

text \<open>A sequence of \<^verbatim>\<open>insert\<close> calls; the exception of one call ends the sequence.\<close>

fun insert_all ::
  "('p::linorder) heap_t \<Rightarrow> (nat \<times> 'p) list \<Rightarrow> (error + 'p heap_t) option" where
  "insert_all h [] = Some (Inr h)"
| "insert_all h ((index, priority) # rest) =
    (case insert_heap h index priority of
       None \<Rightarrow> None
     | Some (Inl e) \<Rightarrow> Some (Inl e)
     | Some (Inr h') \<Rightarrow> insert_all h' rest)"

text \<open>The priority of the entry in a slot, the pending entries (slots \<open>1\<close> to \<open>size_\<close>),
  and the min-heap order: no slot has a smaller priority than its parent slot.\<close>

definition key :: "'p list \<Rightarrow> nat list \<Rightarrow> nat \<Rightarrow> 'p" where
  "key ps hp i = ps ! (hp ! i)"

definition slots :: "nat list \<Rightarrow> nat \<Rightarrow> nat list" where
  "slots hp sz = take sz (tl hp)"

definition heap_ord :: "('p::linorder) list \<Rightarrow> nat list \<Rightarrow> nat \<Rightarrow> bool" where
  "heap_ord ps hp sz \<longleftrightarrow> (\<forall>i \<in> {2..sz}. key ps hp (i div 2) \<le> key ps hp i)"

definition entries :: "'p heap_t \<Rightarrow> nat list" where
  "entries h = slots (heap h) (size' h)"

definition heap_inv :: "('p::linorder) heap_t \<Rightarrow> bool" where
  "heap_inv h \<longleftrightarrow> heap_ord (priorities h) (heap h) (size' h)"

text \<open>A well-formed object: the heap array has its 2500 slots, the size is inside it, and
  every pending index is inside the priorities array. Then no access of \<^verbatim>\<open>pop\<close>,
  \<^verbatim>\<open>insert\<close>, \<^verbatim>\<open>update\<close> or \<^verbatim>\<open>bubble_up\<close> leaves an array.\<close>

definition heap_wf :: "'p heap_t \<Rightarrow> bool" where
  "heap_wf h \<longleftrightarrow> length (heap h) = 2500 \<and> size' h < 2500
     \<and> (\<forall>x \<in> set (entries h). x < length (priorities h))"

text \<open>The order with one slot \<open>k\<close> exempt: while \<^verbatim>\<open>bubble_up\<close> runs, slot \<open>k\<close> may be
  smaller than its parent; while the loop of \<^verbatim>\<open>pop\<close> runs, slot \<open>k\<close> may be larger than
  its children. In both, the children of \<open>k\<close> respect the parent of \<open>k\<close>.\<close>

definition ord_except_up :: "('p::linorder) list \<Rightarrow> nat list \<Rightarrow> nat \<Rightarrow> nat \<Rightarrow> bool" where
  "ord_except_up ps hp sz k \<longleftrightarrow>
     (\<forall>i \<in> {2..sz}. i \<noteq> k \<longrightarrow> key ps hp (i div 2) \<le> key ps hp i)
   \<and> (\<forall>i \<in> {2..sz}. i div 2 = k \<longrightarrow> 2 \<le> k \<longrightarrow> key ps hp (k div 2) \<le> key ps hp i)"

definition ord_except_down :: "('p::linorder) list \<Rightarrow> nat list \<Rightarrow> nat \<Rightarrow> nat \<Rightarrow> bool" where
  "ord_except_down ps hp sz k \<longleftrightarrow>
     (\<forall>i \<in> {2..sz}. i div 2 \<noteq> k \<longrightarrow> key ps hp (i div 2) \<le> key ps hp i)
   \<and> (\<forall>i \<in> {2..sz}. i div 2 = k \<longrightarrow> 2 \<le> k \<longrightarrow> key ps hp (k div 2) \<le> key ps hp i)"

text \<open>Three concrete heaps over three indices with the priorities \<open>[1, 5, 2]\<close>:
  \<open>small_heap\<close> holds each index once; \<open>dup_heap\<close> holds index 1 twice (it is what
  inserting \<open>(0, 1), (1, 5), (2, 2), (1, 5)\<close> into an empty heap gives), and
  \<open>dup_heap_updated\<close> is \<open>dup_heap\<close> after \<^verbatim>\<open>update(1, 0)\<close>.\<close>

definition small_heap :: "nat heap_t" where
  "small_heap =
     \<lparr>priorities = [1, 5, 2], heap = 0 # 0 # 1 # 2 # replicate 2496 0, size' = 3\<rparr>"

definition dup_heap :: "nat heap_t" where
  "dup_heap =
     \<lparr>priorities = [1, 5, 2], heap = 0 # 0 # 1 # 2 # 1 # replicate 2495 0, size' = 4\<rparr>"

definition dup_heap_updated :: "nat heap_t" where
  "dup_heap_updated =
     \<lparr>priorities = [1, 0, 2], heap = 0 # 1 # 0 # 2 # 1 # replicate 2495 0, size' = 4\<rparr>"

section \<open>Properties\<close>

subsection \<open>World positions\<close>

lemma position_in_direction_components:
  "position_in_direction p d =
     world_position (uint (xx p) + dir_dx d) (uint (yy p) + dir_dy d)"
  by (cases d) simp_all

lemma int8_id: "- 128 \<le> v \<Longrightarrow> v \<le> 127 \<Longrightarrow> int8 v = v"
  unfolding int8_def by (simp add: signed_of_int signed_take_bit_int_eq_self)

lemma abs_diff_bound:
  "0 \<le> (a::int) \<Longrightarrow> a < n \<Longrightarrow> 0 \<le> b \<Longrightarrow> b < n \<Longrightarrow> \<bar>a - b\<bar> < n"
  by arith

lemma uint_range_to:
  "uint (range_to a b) = max \<bar>uint (xx a) - uint (xx b)\<bar> \<bar>uint (yy a) - uint (yy b)\<bar>"
proof -
  have bx: "\<bar>uint (xx a) - uint (xx b)\<bar> < 65536"
    using abs_diff_bound[OF uint_ge_0 uint_lt2p uint_ge_0 uint_lt2p, of "xx a" "xx b"]
    by simp
  have by': "\<bar>uint (yy a) - uint (yy b)\<bar> < 65536"
    using abs_diff_bound[OF uint_ge_0 uint_lt2p uint_ge_0 uint_lt2p, of "yy a" "yy b"]
    by simp
  have e: "range_to a b =
      word_of_int (max \<bar>uint (xx a) - uint (xx b)\<bar> \<bar>uint (yy a) - uint (yy b)\<bar>)"
    unfolding range_to_def by (simp add: abs_if max_def)
  show ?thesis
    unfolding e using bx by'
    by (simp add: uint_word_of_int take_bit_int_eq_self max_def)
qed

text \<open>
  \<^bold>\<open>C9.\<close> For every pair of world positions \<open>a\<close> and \<open>b\<close>, \<open>a.range_to(b)\<close> is the Chebyshev
  distance \<open>max(|a.xx - b.xx|, |a.yy - b.yy|)\<close>, computed exactly (no wrap-around) over the
  unsigned 16-bit coordinates, and therefore symmetric.
\<close>

theorem range_to_chebyshev:
  "uint (range_to a b) = max \<bar>uint (xx a) - uint (xx b)\<bar> \<bar>uint (yy a) - uint (yy b)\<bar>
   \<and> range_to a b = range_to b a"
proof
  show "uint (range_to a b) = max \<bar>uint (xx a) - uint (xx b)\<bar> \<bar>uint (yy a) - uint (yy b)\<bar>"
    by (rule uint_range_to)
  show "range_to a b = range_to b a"
    by (rule word_uint_eqI) (simp add: uint_range_to abs_minus_commute)
qed

text \<open>
  \<^bold>\<open>C10.\<close> Neighbour stepping is unsigned 16-bit modular arithmetic: it neither clamps nor
  rejects edge positions. For every position and each of the eight directions, the step
  adds the direction's offset (\<open>-1\<close>, \<open>0\<close> or \<open>1\<close>) to each coordinate modulo \<open>2^16\<close>. So
  from any position with \<open>yy = 0\<close> the step to \<open>TOP\<close> has \<open>yy = 65535\<close>, from any position
  with \<open>xx = 0\<close> the step to \<open>LEFT\<close> has \<open>xx = 65535\<close>, and from \<open>xx = 65535\<close> or
  \<open>yy = 65535\<close> the steps to \<open>RIGHT\<close> and \<open>BOTTOM\<close> arrive at \<open>0\<close>.
\<close>

theorem position_in_direction_wraps:
  "uint (xx (position_in_direction p d)) = (uint (xx p) + dir_dx d) mod 65536
   \<and> uint (yy (position_in_direction p d)) = (uint (yy p) + dir_dy d) mod 65536
   \<and> position_in_direction \<lparr>xx = x, yy = y\<rparr> TOP = \<lparr>xx = x, yy = y - 1\<rparr>
   \<and> position_in_direction \<lparr>xx = x, yy = y\<rparr> TOP_RIGHT = \<lparr>xx = x + 1, yy = y - 1\<rparr>
   \<and> position_in_direction \<lparr>xx = x, yy = y\<rparr> RIGHT = \<lparr>xx = x + 1, yy = y\<rparr>
   \<and> position_in_direction \<lparr>xx = x, yy = y\<rparr> BOTTOM_RIGHT = \<lparr>xx = x + 1, yy = y + 1\<rparr>
   \<and> position_in_direction \<lparr>xx = x, yy = y\<rparr> BOTTOM = \<lparr>xx = x, yy = y + 1\<rparr>
   \<and> position_in_direction \<lparr>xx = x, yy = y\<rparr> BOTTOM_LEFT = \<lparr>xx = x - 1, yy = y + 1\<rparr>
   \<and> position_in_direction \<lparr>xx = x, yy = y\<rparr> LEFT = \<lparr>xx = x - 1, yy = y\<rparr>
   \<and> position_in_direction \<lparr>xx = x, yy = y\<rparr> TOP_LEFT = \<lparr>xx = x - 1, yy = y - 1\<rparr>
   \<and> position_in_direction \<lparr>xx = x, yy = 0\<rparr> TOP = \<lparr>xx = x, yy = 65535\<rparr>
   \<and> position_in_direction \<lparr>xx = 0, yy = y\<rparr> LEFT = \<lparr>xx = 65535, yy = y\<rparr>
   \<and> position_in_direction \<lparr>xx = 65535, yy = y\<rparr> RIGHT = \<lparr>xx = 0, yy = y\<rparr>
   \<and> position_in_direction \<lparr>xx = x, yy = 65535\<rparr> BOTTOM = \<lparr>xx = x, yy = 0\<rparr>"
proof -
  have m: "uint (word_of_int k :: u16) = k mod 65536" for k
    by (simp add: uint_word_of_int take_bit_eq_mod)
  have a: "uint (xx (position_in_direction p d)) = (uint (xx p) + dir_dx d) mod 65536"
    by (simp only: position_in_direction_components world_position_def
        world_position_t.select_convs m)
  have b: "uint (yy (position_in_direction p d)) = (uint (yy p) + dir_dy d) mod 65536"
    by (simp only: position_in_direction_components world_position_def
        world_position_t.select_convs m)
  have c: "position_in_direction \<lparr>xx = x, yy = y\<rparr> TOP = \<lparr>xx = x, yy = y - 1\<rparr>
   \<and> position_in_direction \<lparr>xx = x, yy = y\<rparr> TOP_RIGHT = \<lparr>xx = x + 1, yy = y - 1\<rparr>
   \<and> position_in_direction \<lparr>xx = x, yy = y\<rparr> RIGHT = \<lparr>xx = x + 1, yy = y\<rparr>
   \<and> position_in_direction \<lparr>xx = x, yy = y\<rparr> BOTTOM_RIGHT = \<lparr>xx = x + 1, yy = y + 1\<rparr>
   \<and> position_in_direction \<lparr>xx = x, yy = y\<rparr> BOTTOM = \<lparr>xx = x, yy = y + 1\<rparr>
   \<and> position_in_direction \<lparr>xx = x, yy = y\<rparr> BOTTOM_LEFT = \<lparr>xx = x - 1, yy = y + 1\<rparr>
   \<and> position_in_direction \<lparr>xx = x, yy = y\<rparr> LEFT = \<lparr>xx = x - 1, yy = y\<rparr>
   \<and> position_in_direction \<lparr>xx = x, yy = y\<rparr> TOP_LEFT = \<lparr>xx = x - 1, yy = y - 1\<rparr>
   \<and> position_in_direction \<lparr>xx = x, yy = 0\<rparr> TOP = \<lparr>xx = x, yy = 65535\<rparr>
   \<and> position_in_direction \<lparr>xx = 0, yy = y\<rparr> LEFT = \<lparr>xx = 65535, yy = y\<rparr>
   \<and> position_in_direction \<lparr>xx = 65535, yy = y\<rparr> RIGHT = \<lparr>xx = 0, yy = y\<rparr>
   \<and> position_in_direction \<lparr>xx = x, yy = 65535\<rparr> BOTTOM = \<lparr>xx = x, yy = 0\<rparr>"
    by (simp add: world_position_def)
  show ?thesis
    by (rule conjI [OF a conjI [OF b c]])
qed

text \<open>
  \<^bold>\<open>C2\<close>, as stated, fails: the deltas are stored in \<^verbatim>\<open>int8_t\<close>, so only their low eight
  bits decide. From \<open>(100, 100)\<close> to \<open>(300, 100)\<close> the target lies to the right
  (delta \<open>200\<close>, sign \<open>1\<close>), \<open>dx\<close> is \<open>200 - 256 = -56\<close>, and the result is \<open>LEFT\<close>, whose
  horizontal component is \<open>-1\<close>.
\<close>

theorem direction_to_far_counterexample:
  "direction_to \<lparr>xx = 100, yy = 100\<rparr> \<lparr>xx = 300, yy = 100\<rparr> = Some LEFT
   \<and> dir_dx LEFT = - 1
   \<and> sgn (uint (xx \<lparr>xx = 300, yy = 100 :: u16\<rparr>) - uint (xx \<lparr>xx = 100, yy = 100 :: u16\<rparr>)) = 1"
  by (simp add: direction_to_def int8_def)

text \<open>
  \<^bold>\<open>C2\<close>, amended. For every pair of distinct world positions \<open>p\<close> and \<open>q\<close> whose coordinate
  deltas \<open>q.xx - p.xx\<close> and \<open>q.yy - p.yy\<close> both lie between \<open>-128\<close> and \<open>127\<close> (the range of
  the \<^verbatim>\<open>int8_t\<close> they are stored in), \<open>p.direction_to(q)\<close> is the compass direction whose
  horizontal component is the sign of \<open>q.xx - p.xx\<close> and whose vertical component is the
  sign of \<open>q.yy - p.yy\<close>.
\<close>

theorem direction_to_signs:
  assumes "p \<noteq> q"
    and "- 128 \<le> uint (xx q) - uint (xx p)" and "uint (xx q) - uint (xx p) \<le> 127"
    and "- 128 \<le> uint (yy q) - uint (yy p)" and "uint (yy q) - uint (yy p) \<le> 127"
  shows "\<exists>d. direction_to p q = Some d
     \<and> dir_dx d = sgn (uint (xx q) - uint (xx p))
     \<and> dir_dy d = sgn (uint (yy q) - uint (yy p))"
proof -
  have "xx p \<noteq> xx q \<or> yy p \<noteq> yy q"
    using assms(1) by (cases p, cases q) auto
  then have nz: "uint (xx q) - uint (xx p) \<noteq> 0 \<or> uint (yy q) - uint (yy p) \<noteq> 0"
    by (auto simp: word_uint_eq_iff)
  show ?thesis
    using nz by (auto simp: direction_to_def int8_id assms Let_def)
qed

theorem direction_to_signs_witness:
  "direction_to \<lparr>xx = 10, yy = 10\<rparr> \<lparr>xx = 11, yy = 11\<rparr> = Some BOTTOM_RIGHT
   \<and> direction_to \<lparr>xx = 10, yy = 10\<rparr> \<lparr>xx = 10, yy = 9\<rparr> = Some TOP"
proof -
  have a: "\<exists>d. direction_to \<lparr>xx = 10, yy = 10\<rparr> \<lparr>xx = 11, yy = 11\<rparr> = Some d
      \<and> dir_dx d = 1 \<and> dir_dy d = 1"
    using direction_to_signs [of "\<lparr>xx = 10, yy = 10\<rparr>" "\<lparr>xx = 11, yy = 11\<rparr>"] by simp
  have b: "\<exists>d. direction_to \<lparr>xx = 10, yy = 10\<rparr> \<lparr>xx = 10, yy = 9\<rparr> = Some d
      \<and> dir_dx d = 0 \<and> dir_dy d = - 1"
    using direction_to_signs [of "\<lparr>xx = 10, yy = 10\<rparr>" "\<lparr>xx = 10, yy = 9\<rparr>"] by simp
  from a obtain d where d: "direction_to \<lparr>xx = 10, yy = 10\<rparr> \<lparr>xx = 11, yy = 11\<rparr> = Some d"
    "dir_dx d = 1" "dir_dy d = 1" by blast
  from b obtain e where e: "direction_to \<lparr>xx = 10, yy = 10\<rparr> \<lparr>xx = 10, yy = 9\<rparr> = Some e"
    "dir_dx e = 0" "dir_dy e = - 1" by blast
  have "d = BOTTOM_RIGHT" using d(2,3) by (cases d) simp_all
  moreover have "e = TOP" using e(2,3) by (cases e) simp_all
  ultimately show ?thesis using d(1) e(1) by simp
qed

subsection \<open>The open/closed set\<close>

lemma oc_inv_new: "oc_inv c (open_closed_t_new c)"
  by (simp add: oc_inv_def open_closed_t_new_def list_all_iff)

lemma unat_succ_le: "unat (m + 1 :: u32) \<le> unat m + 1"
  by (simp add: unat_word_ariths)

lemma oc_inv_open: "oc_inv c s \<Longrightarrow> oc_inv c (open_oc s i)"
  by (auto simp: oc_inv_def open_oc_def list_all_iff
      dest!: set_update_subset_insert[THEN subsetD])

lemma oc_inv_close: "oc_inv c s \<Longrightarrow> oc_inv c (close_oc s i)"
  using unat_succ_le
  by (auto simp: oc_inv_def close_oc_def list_all_iff
      dest!: set_update_subset_insert[THEN subsetD])

text \<open>Below the threshold of \<^const>\<open>clear\<close> neither \<open>marker + 2\<close> nor \<open>marker + 3\<close> wraps.\<close>

lemma marker_no_wrap2: "\<not> (4294967293 :: u32) \<le> m \<Longrightarrow> unat (m + 2) = unat m + 2"
  by (simp add: word_le_nat_alt unat_word_ariths)

lemma marker_no_wrap3: "\<not> (4294967293 :: u32) \<le> m \<Longrightarrow> unat (m + 2 + 1) = unat m + 3"
  by (simp add: word_le_nat_alt unat_word_ariths)

lemma oc_inv_clear: "oc_inv c s \<Longrightarrow> oc_inv c (clear s)"
  by (auto simp: oc_inv_def clear_def list_all_iff marker_no_wrap2 dest!: bspec)

lemma oc_inv_call: "oc_inv c s \<Longrightarrow> oc_inv c (oc_call_run s call)"
  by (cases call) (simp_all add: oc_inv_open oc_inv_close oc_inv_clear)

lemma oc_inv_foldl: "oc_inv c s \<Longrightarrow> oc_inv c (foldl oc_call_run s calls)"
  by (induction calls arbitrary: s) (simp_all add: oc_inv_call)

lemma oc_inv_run: "oc_inv c (oc_run c calls)"
  unfolding oc_run_def by (rule oc_inv_foldl [OF oc_inv_new])

lemma clear_fresh:
  assumes "oc_inv c s" and "i < c"
  shows "\<not> is_open (clear s) i \<and> \<not> is_closed (clear s) i"
proof (cases "(4294967293 :: u32) \<le> marker s")
  case True
  then show ?thesis
    using assms by (simp add: clear_def is_open_def is_closed_def oc_inv_def)
next
  case False
  have e: "unat (list s ! i) \<le> unat (marker s) + 1"
    using assms by (simp add: oc_inv_def list_all_length)
  have "list s ! i \<noteq> marker s + 2"
    using e marker_no_wrap2[OF False] by auto
  moreover have "list s ! i \<noteq> marker s + 2 + 1"
    using e marker_no_wrap3[OF False] by auto
  ultimately show ?thesis
    using False by (simp add: clear_def is_open_def is_closed_def)
qed

text \<open>
  \<^bold>\<open>C4.\<close> After any sequence of \<open>open\<close>, \<open>close\<close> and \<open>clear\<close> calls (with indices inside
  the array, and however many clears), a \<open>clear()\<close> leaves every index neither open nor
  closed: no stale stamp equals a stamp of the new generation. The array is rewritten
  only when the marker has reached \<open>UINT_MAX - 2\<close>; otherwise \<open>clear()\<close> leaves it as
  it is.
\<close>

theorem clear_forgets_every_index:
  assumes "list_all (oc_call_ok c) calls" and "i < c"
  shows "\<not> is_open (clear (oc_run c calls)) i
     \<and> \<not> is_closed (clear (oc_run c calls)) i
     \<and> (list (clear (oc_run c calls)) \<noteq> list (oc_run c calls)
          \<longrightarrow> 4294967293 \<le> unat (marker (oc_run c calls)))"
proof -
  have "list (clear s) \<noteq> list s \<longrightarrow> 4294967293 \<le> unat (marker s)" for s
    by (simp add: clear_def word_le_nat_alt)
  then show ?thesis
    using clear_fresh [OF oc_inv_run assms(2)] by blast
qed

theorem clear_forgets_every_index_witness:
  "is_open (oc_run 4 [Open 2, Close 1, Clear, Open 2]) 2
   \<and> \<not> is_open (clear (oc_run 4 [Open 2, Close 1, Clear, Open 2])) 2
   \<and> \<not> is_closed (clear (oc_run 4 [Open 2, Close 1, Clear, Open 2])) 2"
  using clear_forgets_every_index [of 4 "[Open 2, Close 1, Clear, Open 2]" 2]
  by (simp add: oc_run_def open_closed_t_new_def open_oc_def close_oc_def clear_def
      is_open_def)

text \<open>
  \<^bold>\<open>C5.\<close> In every state reached by a sequence of \<open>open\<close>, \<open>close\<close> and \<open>clear\<close> calls, an
  index inside the array is never open and closed at once (so it is exactly one of
  unvisited, open, closed); \<open>open(index)\<close> makes it open and not closed, and
  \<open>close(index)\<close> makes it closed and not open.
\<close>

theorem open_closed_exclusive:
  assumes "list_all (oc_call_ok c) calls" and "i < c"
  shows "\<not> (is_open (oc_run c calls) i \<and> is_closed (oc_run c calls) i)
     \<and> is_open (open_oc (oc_run c calls) i) i
     \<and> \<not> is_closed (open_oc (oc_run c calls) i) i
     \<and> is_closed (close_oc (oc_run c calls) i) i
     \<and> \<not> is_open (close_oc (oc_run c calls) i) i"
proof -
  have "length (list (oc_run c calls)) = c"
    using oc_inv_run [of c calls] by (simp add: oc_inv_def)
  then show ?thesis
    using assms(2) by (simp add: is_open_def is_closed_def open_oc_def close_oc_def)
qed

theorem open_closed_exclusive_witness:
  "is_closed (oc_run 4 [Open 2, Close 1, Clear, Close 3]) 3
   \<and> \<not> is_open (oc_run 4 [Open 2, Close 1, Clear, Close 3]) 3
   \<and> is_open (open_oc (oc_run 4 [Open 2, Close 1, Clear, Close 3]) 3) 3
   \<and> \<not> is_closed (open_oc (oc_run 4 [Open 2, Close 1, Clear, Close 3]) 3) 3"
  using open_closed_exclusive [of 4 "[Open 2, Close 1, Clear, Close 3]" 3]
  by (simp add: oc_run_def open_closed_t_new_def open_oc_def close_oc_def clear_def
      is_closed_def)

subsection \<open>Room lookups\<close>

lemma and3_int: "(3::int) AND x = of_bool (bit x 0) + 2 * of_bool (bit x 1)"
proof -
  have "(3::int) AND x = take_bit 2 x"
    by (simp add: take_bit_eq_mask mask_eq_exp_minus_1 and.commute)
  also have "\<dots> = x mod 4"
    by (simp add: take_bit_eq_mod)
  also have "\<dots> = of_bool (odd x) + 2 * of_bool (odd (x div 2))"
    by (cases "odd x"; cases "odd (x div 2)") (simp_all, presburger+)
  finally show ?thesis
    by (simp add: bit_0 bit_1_iff bit_iff_odd)
qed

lemma look_bits:
  fixes b :: u8
  shows "(word_of_int (3 AND drop_bit k (uint b)) :: u8)
     = of_bool (bit b k) + 2 * of_bool (bit b (k + 1))"
  by (auto simp: and3_int bit_drop_bit_eq bit_uint_iff dest: bit_imp_le_length)

lemma look_in_room:
  assumes "length (cost_matrix r) = 2500" and "x < 50" and "y < 50"
  shows "look r x y =
    (if cost_matrix r ! (unat x * 50 + unat y) \<noteq> 0
     then Some (cost_matrix r ! (unat x * 50 + unat y))
     else case terrain r of
         None \<Rightarrow> None
       | Some t \<Rightarrow>
           if length t \<le> (unat x * 50 + unat y) div 4 then None
           else Some (terrain_code t (unat x * 50 + unat y)))"
proof -
  have x: "unat x < 50"
    using assms(2) by (simp add: word_less_nat_alt)
  have y: "unat y < 50"
    using assms(3) by (simp add: word_less_nat_alt)
  have c: "unat x * 50 + unat y < 2500"
    using x y by simp
  have "unat (word_of_nat n :: u16) = n" if "n < 2500" for n
    using that by (simp add: unat_of_nat)
  from this [OF c]
  have i: "unat (word_of_nat (unat x * 50 + unat y) :: u16) = unat x * 50 + unat y" .
  show ?thesis
    using c unfolding look_def Let_def i
    by (simp add: assms(1) look_bits terrain_code_def split: option.splits)
qed

text \<open>
  \<^bold>\<open>C3.\<close> For every room whose cost matrix has 2500 bytes and whose terrain bitmap has
  625 bytes, and every tile \<open>(xx, yy)\<close> with \<open>xx < 50\<close> and \<open>yy < 50\<close>, \<open>look(xx, yy)\<close>
  returns the cost-matrix byte of the tile when that byte is not zero, and otherwise the
  2-bit terrain code of tile \<open>xx * 50 + yy\<close>: bits \<open>(index mod 4) * 2\<close> and
  \<open>(index mod 4) * 2 + 1\<close> of byte \<open>index div 4\<close> of the bitmap.
\<close>

theorem look_override_or_terrain:
  assumes "length (cost_matrix r) = 2500"
    and "terrain r = Some t" and "length t = 625"
    and "x < 50" and "y < 50"
  shows "look r x y =
     Some (if cost_matrix r ! (unat x * 50 + unat y) \<noteq> 0
           then cost_matrix r ! (unat x * 50 + unat y)
           else terrain_code t (unat x * 50 + unat y))"
proof -
  have "unat x < 50" and "unat y < 50"
    using assms(4,5) by (simp_all add: word_less_nat_alt)
  then have "(unat x * 50 + unat y) div 4 < 625"
    by simp
  then show ?thesis
    by (simp add: look_in_room [OF assms(1,4,5)] assms(2,3))
qed

theorem look_override_or_terrain_witness:
  "look \<lparr>terrain = Some (replicate 625 108), cost_matrix = (replicate 2500 0)[55 := 7],
         pos = 0\<rparr> 1 5 = Some 7
   \<and> look \<lparr>terrain = Some (replicate 625 108), cost_matrix = (replicate 2500 0)[55 := 7],
         pos = 0\<rparr> 0 2 = Some 2"
  using
    look_override_or_terrain [of "\<lparr>terrain = Some (replicate 625 108),
      cost_matrix = (replicate 2500 0)[55 := 7], pos = 0\<rparr>" "replicate 625 108" 1 5]
    look_override_or_terrain [of "\<lparr>terrain = Some (replicate 625 108),
      cost_matrix = (replicate 2500 0)[55 := 7], pos = 0\<rparr>" "replicate 625 108" 0 2]
  by (simp add: terrain_code_def)

text \<open>
  \<^bold>\<open>C8.\<close> A room constructed with a null cost-matrix pointer answers \<open>look\<close> on every
  tile exactly as a room constructed with a pointer to 2500 zero bytes does: the static
  default matrix is substituted, and on every tile of the room \<open>look\<close> returns the
  terrain code.
\<close>

theorem null_cost_matrix_is_all_zero:
  "look (room_info_t_new tp None mp) x y
     = look (room_info_t_new tp (Some (replicate 2500 0)) mp) x y
   \<and> (\<forall>t. tp = Some t \<and> length t = 625 \<and> x < 50 \<and> y < 50 \<longrightarrow>
        look (room_info_t_new tp None mp) x y
          = Some (terrain_code t (unat x * 50 + unat y)))"
proof
  show "look (room_info_t_new tp None mp) x y
      = look (room_info_t_new tp (Some (replicate 2500 0)) mp) x y"
    by (simp add: room_info_t_new_def cost_matrix0_def)
  show "\<forall>t. tp = Some t \<and> length t = 625 \<and> x < 50 \<and> y < 50 \<longrightarrow>
      look (room_info_t_new tp None mp) x y = Some (terrain_code t (unat x * 50 + unat y))"
  proof (intro allI impI)
    fix t
    assume a: "tp = Some t \<and> length t = 625 \<and> x < 50 \<and> y < 50"
    let ?r = "room_info_t_new tp None mp"
    let ?i = "unat x * 50 + unat y"
    have x: "x < 50" and y: "y < 50" and t: "terrain ?r = Some t" and lt: "length t = 625"
      using a by (simp_all add: room_info_t_new_def)
    have "unat x < 50" and "unat y < 50"
      using x y by (simp_all add: word_less_nat_alt)
    then have i: "?i < 2500"
      by simp
    have l: "length (cost_matrix ?r) = 2500"
      by (simp add: room_info_t_new_def cost_matrix0_def)
    have z: "cost_matrix ?r ! ?i = 0"
      using i by (simp add: room_info_t_new_def cost_matrix0_def)
    have d: "\<not> length t \<le> ?i div 4"
      using i lt by simp
    show "look ?r x y = Some (terrain_code t ?i)"
      unfolding look_in_room [OF l x y] z t using d by simp
  qed
qed

theorem null_cost_matrix_is_all_zero_witness:
  "look (room_info_t_new (Some (replicate 625 108)) None 0) 0 2 = Some 2
   \<and> look (room_info_t_new (Some (replicate 625 108)) (Some (replicate 2500 0)) 0) 0 2
       = Some 2"
proof -
  note n = null_cost_matrix_is_all_zero [of "Some (replicate 625 108)" 0 0 2]
  have a: "look (room_info_t_new (Some (replicate 625 108)) None 0) 0 2 = Some 2"
    using n [THEN conjunct2] by (simp add: terrain_code_def)
  show ?thesis
    using a n [THEN conjunct1] by simp
qed

subsection \<open>The priority queue: slots and swaps\<close>

lemma length_swap [simp]: "length (swap hp i j) = length hp"
  by (simp add: swap_def)

lemma key_swap:
  "i < length hp \<Longrightarrow> j < length hp \<Longrightarrow>
   key ps (swap hp i j) n =
     (if n = i then key ps hp j else if n = j then key ps hp i else key ps hp n)"
  by (auto simp: key_def swap_def nth_list_update)

lemma slots_swap:
  assumes "1 \<le> i" "i \<le> sz" "1 \<le> j" "j \<le> sz" "sz < length hp"
  shows "mset (slots (swap hp i j) sz) = mset (slots hp sz)"
proof -
  obtain x xs where hp: "hp = x # xs" using assms(5) by (cases hp) auto
  obtain i' j' where ij: "i = Suc i'" "j = Suc j'" using assms(1,3) by (cases i; cases j) auto
  have l: "i' < length (take sz xs)" "j' < length (take sz xs)" using assms ij hp by auto
  have "slots (swap hp i j) sz = (take sz xs)[i' := take sz xs ! j', j' := take sz xs ! i']"
    using assms ij hp by (simp add: slots_def swap_def take_update_swap)
  moreover have "slots hp sz = take sz xs"
    by (simp add: slots_def hp)
  ultimately show ?thesis
    using mset_swap [OF l(2) l(1)] by simp
qed

text \<open>\<^verbatim>\<open>bubble_up\<close>: when the loop stops the order holds everywhere; a swap moves the
  exempt slot to the parent. So from a slot between 1 and the size the loop returns,
  with the order restored and the same entries.\<close>

lemma up_done:
  assumes "ord_except_up ps hp sz k" "k = 1 \<or> \<not> key ps hp k \<le> key ps hp (k div 2)"
  shows "heap_ord ps hp sz"
  using assms unfolding ord_except_up_def heap_ord_def
  by (metis atLeastAtMost_iff linear numeral_le_one_iff semiring_norm(69))

lemma up_step:
  assumes "2 \<le> k" "k \<le> sz" "sz < length hp" "ord_except_up ps hp sz k"
    "key ps hp k \<le> key ps hp (k div 2)"
  shows "ord_except_up ps (swap hp k (k div 2)) sz (k div 2)"
proof -
  let ?p = "k div 2"
  have p: "?p < k" "1 \<le> ?p" "?p < length hp" "k < length hp" using assms by auto
  have ks: "key ps (swap hp k ?p) n =
      (if n = k then key ps hp ?p else if n = ?p then key ps hp k else key ps hp n)" for n
    using p by (simp add: key_swap)
  have A: "key ps hp (i div 2) \<le> key ps hp i" if "i \<in> {2..sz}" "i \<noteq> k" for i
    using assms(4) that by (simp add: ord_except_up_def)
  have B: "key ps hp ?p \<le> key ps hp i" if "i \<in> {2..sz}" "i div 2 = k" for i
    using assms(4,1) that by (simp add: ord_except_up_def)
  show ?thesis
    unfolding ord_except_up_def
  proof (intro conjI ballI impI)
    fix i assume i: "i \<in> {2..sz}" "i \<noteq> ?p"
    show "key ps (swap hp k ?p) (i div 2) \<le> key ps (swap hp k ?p) i"
    proof (cases "i = k")
      case True
      then show ?thesis using p assms(5) by (simp add: ks)
    next
      case False
      note ik = this
      show ?thesis
      proof (cases "i div 2 = k")
        case True
        then show ?thesis using B[OF i(1) True] i ik p by (simp add: ks) 
      next
        case False
        show ?thesis
        proof (cases "i div 2 = ?p")
          case True
          have "key ps hp ?p \<le> key ps hp i" using A[OF i(1) ik] True by simp
          then show ?thesis using True i ik assms(5) p by (simp add: ks)
        next
          case False
          then show ?thesis using A[OF i(1) ik] i ik \<open>i div 2 \<noteq> k\<close> by (simp add: ks)
        qed
      qed
    qed
  next
    fix i assume i: "i \<in> {2..sz}" "i div 2 = ?p" "2 \<le> ?p"
    have pp: "?p div 2 \<noteq> k" "?p div 2 \<noteq> ?p" using p i(3) by auto
    have pin: "?p \<in> {2..sz}" using i(3) p assms(2) by auto
    have gp: "key ps hp (?p div 2) \<le> key ps hp ?p" using A[OF pin] p by simp
    show "key ps (swap hp k ?p) (?p div 2) \<le> key ps (swap hp k ?p) i"
    proof (cases "i = k")
      case True
      then show ?thesis using gp pp by (simp add: ks)
    next
      case False
      have "i \<noteq> ?p" using i(1,2) by auto
      moreover have "key ps hp ?p \<le> key ps hp i" using A[OF i(1) False] i(2) by simp
      ultimately show ?thesis using gp pp False by (simp add: ks)
    qed
  qed
qed

lemma bubble_up_correct:
  assumes "1 \<le> k" "k \<le> sz" "sz < length hp" "ord_except_up ps hp sz k"
  shows "\<exists>hp'. bubble_up ps hp k = Some hp' \<and> heap_ord ps hp' sz
     \<and> length hp' = length hp \<and> mset (slots hp' sz) = mset (slots hp sz)"
  using assms
proof (induction k arbitrary: hp rule: less_induct)
  case (less k)
  show ?case
  proof (cases "k = 1 \<or> \<not> key ps hp k \<le> key ps hp (k div 2)")
    case True
    then have "bubble_up ps hp k = Some hp"
      by (subst bubble_up.simps) (auto simp: key_def)
    then show ?thesis using up_done[OF less.prems(4) True] by simp
  next
    case False
    then have k: "2 \<le> k" and c: "key ps hp k \<le> key ps hp (k div 2)" using less.prems(1) by auto
    let ?hp = "swap hp k (k div 2)"
    have e: "bubble_up ps hp k = bubble_up ps ?hp (k div 2)"
      using k c by (subst bubble_up.simps) (auto simp: key_def)
    have "\<exists>hp'. bubble_up ps ?hp (k div 2) = Some hp' \<and> heap_ord ps hp' sz
       \<and> length hp' = length ?hp \<and> mset (slots hp' sz) = mset (slots ?hp sz)"
      using k less.prems by (intro less.IH up_step c) auto
    moreover have "mset (slots ?hp sz) = mset (slots hp sz)"
      using k less.prems by (intro slots_swap) auto
    ultimately show ?thesis using e by auto
  qed
qed

text \<open>The pending entries are the contents of the slots 1 to \<open>sz\<close>; an index that is
  pending once sits in one slot only.\<close>

lemma set_slots:
  assumes "sz < length hp"
  shows "set (slots hp sz) = (\<lambda>i. hp ! i) ` {1..sz}"
proof -
  obtain x xs where hp: "hp = x # xs" using assms by (cases hp) auto
  have "sz \<le> length xs"
    using assms hp by simp
  then have "set (take sz xs) = (\<lambda>i. xs ! i) ` {0..<sz}"
    by (simp add: nth_image)
  also have "\<dots> = (\<lambda>i. hp ! i) ` {1..sz}"
  proof (intro set_eqI iffI)
    fix y assume "y \<in> (\<lambda>i. xs ! i) ` {0..<sz}"
    then obtain i where "i < sz" "y = xs ! i" by auto
    then have "Suc i \<in> {1..sz}" "y = hp ! Suc i" by (auto simp: hp)
    then show "y \<in> (\<lambda>i. hp ! i) ` {1..sz}" by blast
  next
    fix y assume "y \<in> (\<lambda>i. hp ! i) ` {1..sz}"
    then obtain i where "1 \<le> i" "i \<le> sz" "y = hp ! i" by auto
    then have "i - 1 \<in> {0..<sz}" "y = xs ! (i - 1)" by (auto simp: hp nth_Cons')
    then show "y \<in> (\<lambda>i. xs ! i) ` {0..<sz}" by blast
  qed
  finally show ?thesis by (simp add: slots_def hp)
qed

lemma count_one_unique:
  "count_list xs x = 1 \<Longrightarrow> a < length xs \<Longrightarrow> b < length xs \<Longrightarrow> xs ! a = x \<Longrightarrow> xs ! b = x
   \<Longrightarrow> a = b"
proof (induction xs arbitrary: a b)
  case Nil
  then show ?case by simp
next
  case (Cons y ys)
  show ?case
  proof (cases "y = x")
    case True
    then have "x \<notin> set ys" using Cons.prems(1) by (simp add: count_list_0_iff)
    then show ?thesis using Cons.prems by (cases a; cases b) auto
  next
    case False
    then show ?thesis using Cons by (cases a; cases b) auto
  qed
qed

lemma slot_unique:
  assumes "count_list (slots hp sz) x = 1" "sz < length hp"
    "1 \<le> a" "a \<le> sz" "1 \<le> b" "b \<le> sz" "hp ! a = x" "hp ! b = x"
  shows "a = b"
proof -
  obtain y ys where hp: "hp = y # ys" using assms(2) by (cases hp) auto
  have s: "slots hp sz = take sz ys"
    by (simp add: slots_def hp)
  have nth: "take sz ys ! (i - 1) = hp ! i" if "1 \<le> i" "i \<le> sz" for i
    using that by (cases i) (simp_all add: hp)
  have len: "i - 1 < length (take sz ys)" if "1 \<le> i" "i \<le> sz" for i
    using that assms(2) hp by auto
  have "a - 1 = b - 1"
  proof (rule count_one_unique)
    show "count_list (take sz ys) x = 1" using assms(1) s by simp
    show "a - 1 < length (take sz ys)" using len assms by blast
    show "b - 1 < length (take sz ys)" using len assms by blast
    show "take sz ys ! (a - 1) = x" using nth[OF assms(3,4)] assms(7) by simp
    show "take sz ys ! (b - 1) = x" using nth[OF assms(5,6)] assms(8) by simp
  qed
  then show ?thesis using assms(3,5) by simp
qed

text \<open>In a heap-ordered array slot 1 has the least priority.\<close>

lemma root_least:
  assumes "heap_ord ps hp sz"
  shows "1 \<le> i \<Longrightarrow> i \<le> sz \<Longrightarrow> key ps hp 1 \<le> key ps hp i"
proof (induction i rule: less_induct)
  case (less i)
  show ?case
  proof (cases "i = 1")
    case True
    then show ?thesis by simp
  next
    case False
    then have i: "i \<in> {2..sz}" "i div 2 < i" "1 \<le> i div 2" "i div 2 \<le> sz" using less.prems by auto
    have "key ps hp (i div 2) \<le> key ps hp i" using assms i(1) by (simp add: heap_ord_def)
    moreover have "key ps hp 1 \<le> key ps hp (i div 2)" using less.IH i by simp
    ultimately show ?thesis by simp
  qed
qed

lemma slots_pop:
  assumes "1 \<le> sz" "sz < length hp"
  shows "mset (slots hp sz) = add_mset (hp ! 1) (mset (slots (hp[1 := hp ! sz]) (sz - 1)))"
proof -
  obtain x xs where hp: "hp = x # xs" using assms by (cases hp) auto
  obtain n where sz: "sz = Suc n" using assms(1) by (cases sz) auto
  have n: "n < length xs" using assms hp sz by simp
  then obtain y ys where xs: "xs = y # ys" by (cases xs) auto
  show ?thesis
  proof (cases n)
    case 0
    then show ?thesis by (simp add: slots_def hp sz xs)
  next
    case (Suc m)
    have m: "m < length ys" using n xs Suc by simp
    have "take (Suc m) ys = take m ys @ [ys ! m]" using m by (simp add: take_Suc_conv_app_nth)
    then show ?thesis by (simp add: slots_def hp sz xs Suc)
  qed
qed

text \<open>The loop of \<^verbatim>\<open>pop\<close>: \<open>sift_choice\<close> stays only where no child is smaller, and
  otherwise moves to a child that is smallest among the slot and its children.\<close>

lemma child_cases: "i div 2 = k \<Longrightarrow> i = 2 * k \<or> i = 2 * k + 1" for i k :: nat
  by presburger

lemma sift_choice_stay:
  assumes "sift_choice ps sz hp k = k" "1 \<le> k" "i \<in> {2..sz}" "i div 2 = k"
  shows "key ps hp k \<le> key ps hp i"
  using assms(1,2,3) child_cases[OF assms(4)]
  by (auto simp: sift_choice_def Let_def key_def split: if_splits)

lemma sift_choice_move:
  assumes "sift_choice ps sz hp k = v" "v \<noteq> k" "1 \<le> k"
  shows "v div 2 = k \<and> 2 \<le> v \<and> v \<le> sz \<and> key ps hp v \<le> key ps hp k"
  using assms
  by (auto simp: sift_choice_def Let_def key_def split: if_splits)

lemma sift_choice_least:
  assumes "sift_choice ps sz hp k = v" "v \<noteq> k" "1 \<le> k" "i \<in> {2..sz}" "i div 2 = k"
  shows "key ps hp v \<le> key ps hp i"
  using assms(1,2,3,4) child_cases[OF assms(5)]
  by (auto simp: sift_choice_def Let_def key_def split: if_splits)

lemma down_done:
  assumes "ord_except_down ps hp sz k" "sift_choice ps sz hp k = k" "1 \<le> k"
  shows "heap_ord ps hp sz"
  unfolding heap_ord_def
proof
  fix i assume i: "i \<in> {2..sz}"
  show "key ps hp (i div 2) \<le> key ps hp i"
  proof (cases "i div 2 = k")
    case True
    then show ?thesis using sift_choice_stay[OF assms(2,3) i True] by simp
  next
    case False
    then show ?thesis using assms(1) i by (simp add: ord_except_down_def)
  qed
qed

lemma down_step:
  assumes "1 \<le> k" "sz < length hp" "ord_except_down ps hp sz k"
    "sift_choice ps sz hp k = v" "v \<noteq> k"
  shows "ord_except_down ps (swap hp k v) sz v"
proof -
  note mv = sift_choice_move[OF assms(4,5,1)]
  have v: "v div 2 = k" "2 \<le> v" "v \<le> sz" "key ps hp v \<le> key ps hp k"
    using mv by simp_all
  have kv: "k < v" "k < length hp" "v < length hp" using v assms(1,2) by auto
  have ks: "key ps (swap hp k v) n =
      (if n = k then key ps hp v else if n = v then key ps hp k else key ps hp n)" for n
    using kv by (simp add: key_swap)
  have A: "key ps hp (i div 2) \<le> key ps hp i" if "i \<in> {2..sz}" "i div 2 \<noteq> k" for i
    using assms(3) that by (simp add: ord_except_down_def)
  have B: "key ps hp (k div 2) \<le> key ps hp i" if "i \<in> {2..sz}" "i div 2 = k" "2 \<le> k" for i
    using assms(3) that by (simp add: ord_except_down_def)
  have C: "key ps hp v \<le> key ps hp i" if "i \<in> {2..sz}" "i div 2 = k" for i
    using sift_choice_least[OF assms(4,5,1) that] .
  show ?thesis
    unfolding ord_except_down_def
  proof (intro conjI ballI impI)
    fix i assume i: "i \<in> {2..sz}" "i div 2 \<noteq> v"
    show "key ps (swap hp k v) (i div 2) \<le> key ps (swap hp k v) i"
    proof (cases "i = v")
      case True
      then show ?thesis using v kv by (simp add: ks)
    next
      case False
      note iv = this
      show ?thesis
      proof (cases "i div 2 = k")
        case True
        have "i \<noteq> k" using True i(1) by auto
        then show ?thesis using C[OF i(1) True] True iv by (simp add: ks)
      next
        case False
        note ik = this
        show ?thesis
        proof (cases "i = k")
          case True
          then have k2: "2 \<le> k" using i(1) by simp
          have vin: "v \<in> {2..sz}" using v by simp
          have "k div 2 \<noteq> k" "k div 2 \<noteq> v" using k2 kv by auto
          then show ?thesis using B[OF vin v(1) k2] True by (simp add: ks)
        next
          case False
          then show ?thesis using A[OF i(1) ik] i(2) ik iv by (simp add: ks)
        qed
      qed
    qed
  next
    fix i assume i: "i \<in> {2..sz}" "i div 2 = v" "2 \<le> v"
    have "i \<noteq> k" "i \<noteq> v" using i kv by auto
    moreover have "key ps hp v \<le> key ps hp i" using A[of i] i kv by simp
    ultimately show "key ps (swap hp k v) (v div 2) \<le> key ps (swap hp k v) i"
      using v(1) by (simp add: ks)
  qed
qed

lemma sift_down_correct:
  assumes "1 \<le> k" "sz < length hp" "ord_except_down ps hp sz k"
  shows "heap_ord ps (sift_down ps sz hp k) sz
     \<and> length (sift_down ps sz hp k) = length hp
     \<and> mset (slots (sift_down ps sz hp k) sz) = mset (slots hp sz)"
  using assms
proof (induction ps sz hp k rule: sift_down.induct)
  case (1 ps sz hp k)
  let ?v = "sift_choice ps sz hp k"
  show ?case
  proof (cases "?v = k")
    case True
    have "sift_down ps sz hp k = hp"
      using True by (subst sift_down.simps) (simp add: Let_def)
    then show ?thesis using down_done[OF "1.prems"(3) True "1.prems"(1)] by simp
  next
    case False
    note mv = sift_choice_move[OF refl False "1.prems"(1)]
    have kv: "1 \<le> ?v" "k \<le> sz" "?v \<le> sz" using mv "1.prems"(1) by auto
    have e: "sift_down ps sz hp k = sift_down ps sz (swap hp k ?v) ?v"
      using False by (subst sift_down.simps) (simp add: Let_def)
    have "heap_ord ps (sift_down ps sz (swap hp k ?v) ?v) sz
       \<and> length (sift_down ps sz (swap hp k ?v) ?v) = length (swap hp k ?v)
       \<and> mset (slots (sift_down ps sz (swap hp k ?v) ?v) sz) = mset (slots (swap hp k ?v) sz)"
    proof (rule "1.IH"[OF refl refl])
      show "k \<noteq> ?v" using False by simp
      show "1 \<le> ?v" by (rule kv)
      show "sz < length (swap hp k ?v)" using "1.prems"(2) by simp
      show "ord_except_down ps (swap hp k ?v) sz ?v"
        using down_step[OF "1.prems" refl False] .
    qed
    moreover have "mset (slots (swap hp k ?v) sz) = mset (slots hp sz)"
      using kv "1.prems" by (intro slots_swap) auto
    ultimately show ?thesis using e by simp
  qed
qed

text \<open>\<^verbatim>\<open>insert\<close>: whatever the priorities, \<^verbatim>\<open>bubble_up\<close> returns from a slot between 1
  and the size and permutes the entries.\<close>

lemma bubble_up_perm:
  assumes "1 \<le> k" "k \<le> sz" "sz < length hp"
  shows "\<exists>hp'. bubble_up ps hp k = Some hp' \<and> length hp' = length hp
     \<and> mset (slots hp' sz) = mset (slots hp sz)"
  using assms
proof (induction k arbitrary: hp rule: less_induct)
  case (less k)
  show ?case
  proof (cases "k \<noteq> 1 \<and> ps ! (hp ! k) \<le> ps ! (hp ! (k div 2))")
    case True
    let ?hp = "swap hp k (k div 2)"
    have e: "bubble_up ps hp k = bubble_up ps ?hp (k div 2)"
      using True by (subst bubble_up.simps) auto
    have k: "k div 2 < k" "1 \<le> k div 2" "k div 2 \<le> sz"
      using True less.prems by auto
    have "\<exists>hp'. bubble_up ps ?hp (k div 2) = Some hp' \<and> length hp' = length ?hp
       \<and> mset (slots hp' sz) = mset (slots ?hp sz)"
      using k less.prems by (intro less.IH) auto
    moreover have "mset (slots ?hp sz) = mset (slots hp sz)"
      using k less.prems by (intro slots_swap) auto
    ultimately show ?thesis using e by auto
  next
    case False
    then have "bubble_up ps hp k = Some hp"
      by (subst bubble_up.simps) auto
    then show ?thesis by simp
  qed
qed

lemma slots_push:
  assumes "Suc sz < length hp"
  shows "slots (hp[Suc sz := x]) (Suc sz) = slots hp sz @ [x]"
proof -
  obtain y ys where hp: "hp = y # ys" using assms by (cases hp) auto
  have "sz < length ys" using assms hp by simp
  then have "take (Suc sz) (ys[sz := x]) = take sz ys @ [x]"
    by (simp add: take_Suc_conv_app_nth)
  then show ?thesis by (simp add: slots_def hp)
qed

lemma insert_heap_ok:
  assumes "heap_wf h" "size' h \<noteq> 2499" "idx < length (priorities h)"
  shows "\<exists>h'. insert_heap h idx p = Some (Inr h') \<and> size' h' = Suc (size' h)
     \<and> length (priorities h') = length (priorities h) \<and> heap_wf h'
     \<and> mset (entries h') = add_mset idx (mset (entries h))"
proof -
  let ?ps = "(priorities h)[idx := p]"
  let ?sz = "Suc (size' h)"
  let ?hp = "(heap h)[?sz := idx]"
  have l: "length (heap h) = 2500" and s: "size' h < 2499"
    using assms(1,2) by (auto simp: heap_wf_def)
  have m: "(size' h + 1) mod 2 ^ 64 = ?sz"
    using s by simp
  obtain hp' where hp': "bubble_up ?ps ?hp ?sz = Some hp'" "length hp' = length ?hp"
      "mset (slots hp' ?sz) = mset (slots ?hp ?sz)"
    using bubble_up_perm[of ?sz ?sz ?hp ?ps] l s by auto
  let ?h' = "\<lparr>priorities = ?ps, heap = hp', size' = ?sz\<rparr>"
  have r: "insert_heap h idx p = Some (Inr ?h')"
    using s l hp'(1) unfolding insert_heap_def m Let_def by simp
  have e: "mset (entries ?h') = add_mset idx (mset (entries h))"
    using hp'(3) l s by (simp add: entries_def slots_push)
  have "\<forall>x \<in> set (entries ?h'). x < length ?ps"
  proof
    fix x assume "x \<in> set (entries ?h')"
    then have "x \<in># mset (entries ?h')" by simp
    then have "x = idx \<or> x \<in> set (entries h)" unfolding e by simp
    then show "x < length ?ps" using assms(1,3) by (auto simp: heap_wf_def)
  qed
  then have "heap_wf ?h'"
    using hp'(2) l s by (simp add: heap_wf_def)
  then show ?thesis using r e by simp
qed

lemma insert_heap_full:
  assumes "length (heap h) = 2500"
  shows "insert_heap h idx p = Some (Inl Max_heap) \<longleftrightarrow> size' h = 2499"
  using assms by (auto simp: insert_heap_def Let_def split: option.splits)

lemma insert_all_ok:
  assumes "heap_wf h" "size' h + length xs \<le> 2499"
    "\<forall>e \<in> set xs. fst e < length (priorities h)"
  shows "\<exists>h'. insert_all h xs = Some (Inr h') \<and> size' h' = size' h + length xs \<and> heap_wf h'"
  using assms
proof (induction xs arbitrary: h)
  case Nil
  then show ?case by simp
next
  case (Cons e xs)
  obtain idx p where e: "e = (idx, p)" by (cases e)
  obtain h1 where h1: "insert_heap h idx p = Some (Inr h1)" "size' h1 = Suc (size' h)"
      "length (priorities h1) = length (priorities h)" "heap_wf h1"
    using insert_heap_ok[of h idx p] Cons.prems e by auto
  obtain h' where "insert_all h1 xs = Some (Inr h')" "size' h' = size' h1 + length xs" "heap_wf h'"
    using Cons.IH[of h1] h1 Cons.prems by auto
  then show ?case using h1 e by simp
qed

lemma insert_all_append:
  "insert_all h (xs @ ys) =
     (case insert_all h xs of
        None \<Rightarrow> None
      | Some (Inl e) \<Rightarrow> Some (Inl e)
      | Some (Inr h') \<Rightarrow> insert_all h' ys)"
  by (induction xs arbitrary: h) (auto split: option.splits sum.splits)

lemma zip_upt_snoc:
  "zip [0..<Suc n] (replicate (Suc n) c) = zip [0..<n] (replicate n c) @ [(n, c)]"
proof -
  have "replicate (Suc n) c = replicate n c @ [c]"
    by (simp add: replicate_append_same)
  then show ?thesis
    by (simp del: replicate_Suc)
qed

text \<open>\<^verbatim>\<open>pop\<close>: after the last slot has been copied to the root, only the root can be
  out of order.\<close>

lemma pop_root_except_down:
  assumes "heap_ord ps hp sz" "1 \<le> sz" "sz < length hp"
  shows "ord_except_down ps (hp[1 := hp ! sz]) (sz - 1) 1"
  unfolding ord_except_down_def
proof (intro conjI ballI impI)
  fix i assume i: "i \<in> {2..sz - 1}" "i div 2 \<noteq> 1"
  then have "i \<noteq> 1" "i \<in> {2..sz}" by auto
  then show "key ps (hp[1 := hp ! sz]) (i div 2) \<le> key ps (hp[1 := hp ! sz]) i"
    using assms(1) i(2) by (simp add: heap_ord_def key_def)
next
  fix i assume "i \<in> {2..sz - 1}" "i div 2 = 1" "2 \<le> (1::nat)"
  then show "key ps (hp[1 := hp ! sz]) (1 div 2) \<le> key ps (hp[1 := hp ! sz]) i"
    by simp
qed

text \<open>\<^verbatim>\<open>update\<close>: the scan stops at a slot that holds the index; when the index is
  pending once and its priority does not grow, only that slot can be out of order.\<close>

lemma update_from_scan:
  assumes "\<exists>i. 1 \<le> i \<and> i \<le> n \<and> heap h ! i = idx"
  shows "\<exists>k. 1 \<le> k \<and> k \<le> n \<and> heap h ! k = idx
     \<and> update_from h idx p n =
         (case bubble_up ((priorities h)[idx := p]) (heap h) k of
            None \<Rightarrow> None
          | Some hp' \<Rightarrow> Some (h\<lparr>priorities := (priorities h)[idx := p], heap := hp'\<rparr>))"
  using assms
proof (induction n)
  case 0
  then show ?case by simp
next
  case (Suc n)
  show ?case
  proof (cases "heap h ! Suc n = idx")
    case True
    then show ?thesis by (intro exI[of _ "Suc n"]) (simp add: Let_def)
  next
    case False
    then have "\<exists>i. 1 \<le> i \<and> i \<le> n \<and> heap h ! i = idx"
      using Suc.prems by (metis le_SucE)
    from Suc.IH[OF this] obtain k where "1 \<le> k" "k \<le> n" "heap h ! k = idx"
      "update_from h idx p n =
         (case bubble_up ((priorities h)[idx := p]) (heap h) k of
            None \<Rightarrow> None
          | Some hp' \<Rightarrow> Some (h\<lparr>priorities := (priorities h)[idx := p], heap := hp'\<rparr>))"
      by blast
    then show ?thesis using False by (intro exI[of _ k]) simp
  qed
qed

lemma decrease_except_up:
  assumes "sz < length hp" "\<forall>x \<in> set (slots hp sz). x < length ps" "heap_ord ps hp sz"
    "1 \<le> k" "k \<le> sz" "hp ! k = idx"
    "\<forall>i. 1 \<le> i \<and> i \<le> sz \<and> hp ! i = idx \<longrightarrow> i = k"
    "p \<le> ps ! idx"
  shows "ord_except_up (ps[idx := p]) hp sz k"
proof -
  have inr: "hp ! i < length ps" if "1 \<le> i" "i \<le> sz" for i
    using assms(2) that unfolding set_slots[OF assms(1)] by auto
  have kk: "key (ps[idx := p]) hp k = p"
    using inr[OF assms(4,5)] assms(6) by (simp add: key_def)
  have ko: "key (ps[idx := p]) hp i = key ps hp i" if "1 \<le> i" "i \<le> sz" "i \<noteq> k" for i
  proof -
    have "hp ! i \<noteq> idx" using assms(7) that by blast
    then show ?thesis by (simp add: key_def)
  qed
  have O: "key ps hp (i div 2) \<le> key ps hp i" if "i \<in> {2..sz}" for i
    using assms(3) that by (simp add: heap_ord_def)
  have pk: "p \<le> key ps hp k"
    using assms(6,8) by (simp add: key_def)
  show ?thesis
    unfolding ord_except_up_def
  proof (intro conjI ballI impI)
    fix i assume i: "i \<in> {2..sz}" "i \<noteq> k"
    then have i': "1 \<le> i" "i \<le> sz" "1 \<le> i div 2" "i div 2 \<le> sz" by auto
    show "key (ps[idx := p]) hp (i div 2) \<le> key (ps[idx := p]) hp i"
    proof (cases "i div 2 = k")
      case True
      then show ?thesis using O[OF i(1)] pk kk ko[OF i'(1,2) i(2)] by simp
    next
      case False
      then show ?thesis using O[OF i(1)] ko[OF i'(1,2) i(2)] ko[OF i'(3,4) False] by simp
    qed
  next
    fix i assume i: "i \<in> {2..sz}" "i div 2 = k" "2 \<le> k"
    then have i': "1 \<le> i" "i \<le> sz" "i \<noteq> k" "1 \<le> k div 2" "k div 2 \<le> sz" "k div 2 \<noteq> k"
      "k \<in> {2..sz}"
      using assms(5) by auto
    have "key ps hp (k div 2) \<le> key ps hp k" using O[OF i'(7)] .
    moreover have "key ps hp k \<le> key ps hp i" using O[OF i(1)] i(2) by simp
    ultimately show "key (ps[idx := p]) hp (k div 2) \<le> key (ps[idx := p]) hp i"
      using ko[OF i'(1,2,3)] ko[OF i'(4,5,6)] by simp
  qed
qed

text \<open>Evaluation on the concrete heaps.\<close>

lemma ball_interval_unroll:
  "(\<forall>i \<in> {a..b::nat}. P i) \<longleftrightarrow> (if a \<le> b then P a \<and> (\<forall>i \<in> {Suc a..b}. P i) else True)"
proof (cases "a \<le> b")
  case True
  then have "{a..b} = insert a {Suc a..b}" by auto
  then show ?thesis using True by simp
next
  case False
  then show ?thesis by simp
qed

lemma update_from_pos:
  "0 < n \<Longrightarrow> update_from h idx p n =
    (if heap h ! n = idx then
       (let ps = (priorities h)[idx := p]
        in case bubble_up ps (heap h) n of
             None \<Rightarrow> None
           | Some hp' \<Rightarrow> Some (h\<lparr>priorities := ps, heap := hp'\<rparr>))
     else update_from h idx p (n - 1))"
  by (cases n) simp_all

lemma dup_heap_wf: "heap_wf dup_heap"
  by (simp add: heap_wf_def dup_heap_def entries_def slots_def)

lemma dup_heap_inv: "heap_inv dup_heap"
  by (simp add: heap_inv_def heap_ord_def dup_heap_def key_def ball_interval_unroll)

lemma dup_heap_update: "update_heap dup_heap 1 0 = Some dup_heap_updated"
  by (simp add: update_heap_def dup_heap_def dup_heap_updated_def update_from_pos
      bubble_up.simps swap_def Let_def)

lemma dup_heap_updated_inv: "\<not> heap_inv dup_heap_updated"
  by (simp add: heap_inv_def heap_ord_def dup_heap_updated_def key_def ball_interval_unroll)

lemma zeros: "replicate 2500 (0::nat) = 0 # 0 # 0 # 0 # 0 # replicate 2495 0"
  by (simp flip: replicate_Suc)

lemma dup_heap_reached:
  "insert_all (heap_t_new [0, 0, 0] (replicate 2500 0)) [(0, 1), (1, 5), (2, 2), (1, 5)]
     = Some (Inr dup_heap)"
  unfolding zeros
  by (simp add: insert_heap_def heap_t_new_def dup_heap_def bubble_up.simps swap_def Let_def)

lemma small_heap_wf: "heap_wf small_heap"
  by (simp add: heap_wf_def small_heap_def entries_def slots_def)

lemma small_heap_inv: "heap_inv small_heap"
  by (simp add: heap_inv_def heap_ord_def small_heap_def key_def ball_interval_unroll)

subsection \<open>The priority queue: capacity\<close>

text \<open>
  \<^bold>\<open>C1\<close>, as stated, fails: the capacity error does not wait for the tile cap of 40000
  entries. In a queue over 40000 indices, inserting the 2500 distinct indices
  \<open>0, \<dots>, 2499\<close> into the empty heap raises \<open>Max heap\<close> at the last of them, with 2499
  entries pending.
\<close>

theorem insert_tile_cap_counterexample:
  "insert_all (heap_t_new (replicate 40000 0) (replicate 2500 0))
      (zip [0..<2500] (replicate 2500 (0::nat))) = Some (Inl Max_heap)"
proof -
  let ?h = "heap_t_new (replicate 40000 (0::nat)) (replicate 2500 0)"
  let ?xs = "zip [0..<2499] (replicate 2499 (0::nat))"
  have wf: "heap_wf ?h"
    by (simp add: heap_wf_def heap_t_new_def entries_def slots_def)
  have "\<forall>e \<in> set ?xs. fst e < length (priorities ?h)"
    by (auto simp: heap_t_new_def dest!: set_zip_leftD)
  then obtain h' where h': "insert_all ?h ?xs = Some (Inr h')" "size' h' = 2499" "heap_wf h'"
    using insert_all_ok[OF wf, of ?xs] by (auto simp: heap_t_new_def)
  have "insert_heap h' 2499 0 = Some (Inl Max_heap)"
    using h'(2,3) by (simp add: insert_heap_full heap_wf_def)
  moreover have "zip [0..<2500] (replicate 2500 (0::nat)) = ?xs @ [(2499, 0)]"
    using zip_upt_snoc[of 2499 "0::nat"] by simp
  ultimately show ?thesis
    using h'(1) by (simp add: insert_all_append)
qed

text \<open>
  \<^bold>\<open>C1\<close>, amended. \<open>insert(idx, priority)\<close> raises the capacity error exactly when the
  occupancy is 2499 (the 2500 slots of the heap array less the unused slot 0; the tile
  cap of 40000 plays no part). For every sequence of inserts of indices below the
  capacity that keeps the number of pending entries at most 2499, every insert returns
  without error, and the occupancy grows by the number of inserts.
\<close>

theorem insert_capacity_error:
  assumes "heap_wf h"
  shows "(insert_heap h idx p = Some (Inl Max_heap) \<longleftrightarrow> size' h = 2499)
     \<and> (\<forall>xs. size' h + length xs \<le> 2499
            \<and> (\<forall>e \<in> set xs. fst e < length (priorities h)) \<longrightarrow>
          (\<exists>h'. insert_all h xs = Some (Inr h') \<and> size' h' = size' h + length xs))"
proof
  show "insert_heap h idx p = Some (Inl Max_heap) \<longleftrightarrow> size' h = 2499"
    using assms by (intro insert_heap_full) (simp add: heap_wf_def)
  show "\<forall>xs. size' h + length xs \<le> 2499
            \<and> (\<forall>e \<in> set xs. fst e < length (priorities h)) \<longrightarrow>
          (\<exists>h'. insert_all h xs = Some (Inr h') \<and> size' h' = size' h + length xs)"
    using insert_all_ok [OF assms] by blast
qed

theorem insert_capacity_error_witness:
  "insert_heap (heap_t_new [0, 0, 0 :: nat] (replicate 2500 0)) 0 1 \<noteq> Some (Inl Max_heap)
   \<and> (\<exists>h'. insert_all (heap_t_new [0, 0, 0 :: nat] (replicate 2500 0)) [(0, 1), (1, 5)]
          = Some (Inr h') \<and> size' h' = 2)"
proof -
  let ?h = "heap_t_new [0, 0, 0 :: nat] (replicate 2500 0)"
  have wf: "heap_wf ?h"
    by (simp add: heap_wf_def heap_t_new_def entries_def slots_def)
  note t = insert_capacity_error [OF wf]
  have a: "insert_heap ?h 0 1 \<noteq> Some (Inl Max_heap)"
    using t [of 0 1] by (simp add: heap_t_new_def)
  have "size' ?h + length [(0, 1 :: nat), (1 :: nat, 5)] \<le> 2499
      \<and> (\<forall>e \<in> set [(0, 1 :: nat), (1 :: nat, 5)]. fst e < length (priorities ?h))"
    by (simp add: heap_t_new_def)
  then have "\<exists>h'. insert_all ?h [(0, 1), (1, 5)] = Some (Inr h')
      \<and> size' h' = size' ?h + length [(0, 1 :: nat), (1 :: nat, 5)]"
    using t [THEN conjunct2] by blast
  then obtain h' where h': "insert_all ?h [(0, 1), (1, 5)] = Some (Inr h')"
    and s: "size' h' = size' ?h + length [(0, 1 :: nat), (1 :: nat, 5)]"
    by blast
  have "size' h' = 2"
    unfolding s by (simp add: heap_t_new_def)
  with h' have "\<exists>h'. insert_all ?h [(0, 1), (1, 5)] = Some (Inr h') \<and> size' h' = 2"
    by blast
  with a show ?thesis
    by blast
qed

subsection \<open>The priority queue: \<^verbatim>\<open>pop\<close>\<close>

text \<open>
  \<^bold>\<open>C6.\<close> On a well-formed, non-empty queue that satisfies the min-heap invariant,
  \<open>pop()\<close> returns the entry of slot 1 with its priority, which is at most the priority
  of every entry that remains; the entries that remain are the old ones less that entry;
  the occupancy drops by exactly one; no priority changes; and the remaining entries
  satisfy the min-heap invariant again.
\<close>

theorem pop_returns_minimum:
  assumes "heap_wf h" and "heap_inv h" and "\<not> empty h"
  shows "fst (pop h) = (heap h ! 1, priorities h ! (heap h ! 1))
     \<and> mset (entries h) = add_mset (fst (fst (pop h))) (mset (entries (snd (pop h))))
     \<and> (\<forall>j \<in> set (entries (snd (pop h))). snd (fst (pop h)) \<le> priorities (snd (pop h)) ! j)
     \<and> size' h = Suc (size' (snd (pop h)))
     \<and> priorities (snd (pop h)) = priorities h
     \<and> heap_inv (snd (pop h))
     \<and> heap_wf (snd (pop h))"
proof -
  let ?ps = "priorities h" and ?hp = "heap h" and ?sz = "size' h"
  let ?hp1 = "?hp[1 := ?hp ! ?sz]"
  let ?hp' = "sift_down ?ps (?sz - 1) ?hp1 1"
  have sz: "1 \<le> ?sz" "?sz < length ?hp" and len: "length ?hp = 2500"
    using assms(1,3) by (auto simp: heap_wf_def empty_def)
  have ord: "heap_ord ?ps ?hp ?sz"
    using assms(2) by (simp add: heap_inv_def)
  have p: "pop h = ((?hp ! 1, ?ps ! (?hp ! 1)),
      \<lparr>priorities = ?ps, heap = ?hp', size' = ?sz - 1\<rparr>)"
    using sz(1) by (simp add: pop_def Let_def)
  have sd: "heap_ord ?ps ?hp' (?sz - 1)" "length ?hp' = length ?hp1"
      "mset (slots ?hp' (?sz - 1)) = mset (slots ?hp1 (?sz - 1))"
    using sift_down_correct[OF _ _ pop_root_except_down[OF ord sz], of ] sz by auto
  have ms: "mset (entries h) = add_mset (?hp ! 1) (mset (slots ?hp' (?sz - 1)))"
    unfolding sd(3) entries_def by (rule slots_pop[OF sz])
  have least: "?ps ! (?hp ! 1) \<le> ?ps ! j" if "j \<in> set (slots ?hp' (?sz - 1))" for j
  proof -
    have "j \<in># mset (entries h)" using that unfolding ms by simp
    then have "j \<in> set (slots ?hp ?sz)" by (simp add: entries_def)
    then obtain i where "1 \<le> i" "i \<le> ?sz" "j = ?hp ! i"
      unfolding set_slots[OF sz(2)] by auto
    then show ?thesis using root_least[OF ord, of i] by (simp add: key_def)
  qed
  have wf: "\<forall>x \<in> set (slots ?hp' (?sz - 1)). x < length ?ps"
  proof
    fix x assume "x \<in> set (slots ?hp' (?sz - 1))"
    then have "x \<in># mset (entries h)" unfolding ms by simp
    then show "x < length ?ps" using assms(1) by (simp add: heap_wf_def)
  qed
  show ?thesis
    unfolding p using ms least sd(1,2) wf sz len
    by (simp add: entries_def heap_inv_def heap_wf_def)
qed

theorem pop_returns_minimum_witness:
  "fst (pop small_heap) = (0, 1) \<and> size' (snd (pop small_heap)) = 2
   \<and> heap_inv (snd (pop small_heap)) \<and> mset (entries (snd (pop small_heap))) = {#1, 2#}"
proof -
  have ne: "\<not> empty small_heap" by (simp add: empty_def small_heap_def)
  note p = pop_returns_minimum [OF small_heap_wf small_heap_inv ne]
  have e: "entries small_heap = [0, 1, 2]"
    by (simp add: small_heap_def entries_def slots_def)
  have f: "fst (pop small_heap) = (0, 1)"
    using p by (simp add: small_heap_def)
  have "mset (entries small_heap) = add_mset 0 (mset (entries (snd (pop small_heap))))"
    using p f by simp
  then have m: "mset (entries (snd (pop small_heap))) = {#1, 2#}"
    unfolding e by simp
  have "size' (snd (pop small_heap)) = 2"
    using p by (simp add: small_heap_def)
  then show ?thesis
    using p f m by simp
qed

subsection \<open>The priority queue: \<^verbatim>\<open>update\<close>\<close>

text \<open>
  \<^bold>\<open>C7\<close>, as stated, fails on a queue that holds the index more than once: there is one
  priority per index, so \<open>update\<close> lowers the priority of every occurrence but sifts up
  only the one it finds first. \<open>dup_heap\<close> (reached by four inserts) satisfies the
  invariant and contains index 1 with priority 5; after \<open>update(1, 0)\<close> slot 4 holds
  index 1 (priority 0) under slot 2, which holds index 0 (priority 1).
\<close>

theorem update_duplicate_counterexample:
  "insert_all (heap_t_new [0, 0, 0] (replicate 2500 0)) [(0, 1), (1, 5), (2, 2), (1, 5)]
     = Some (Inr dup_heap)
   \<and> heap_inv dup_heap
   \<and> 1 \<in> set (entries dup_heap)
   \<and> (0::nat) \<le> priorities dup_heap ! 1
   \<and> update_heap dup_heap 1 0 = Some dup_heap_updated
   \<and> \<not> heap_inv dup_heap_updated"
  using dup_heap_reached dup_heap_inv dup_heap_update dup_heap_updated_inv
  by (simp add: dup_heap_def entries_def slots_def)

text \<open>
  \<^bold>\<open>C7\<close>, amended. On a well-formed queue that satisfies the min-heap invariant and
  holds the index \<open>idx\<close> exactly once, and for every new priority that is at most the
  current priority of \<open>idx\<close>, \<open>update(idx, new_priority)\<close> returns, sets the priority of
  \<open>idx\<close> to the new priority (and no other), leaves the stored indices and the occupancy
  unchanged, and re-establishes the min-heap invariant by \<open>bubble_up\<close> alone.
\<close>

theorem update_decrease_key:
  assumes "heap_wf h" and "heap_inv h" and "count_list (entries h) idx = 1"
    and "p \<le> priorities h ! idx"
  shows "\<exists>h'. update_heap h idx p = Some h'
     \<and> priorities h' = (priorities h)[idx := p]
     \<and> priorities h' ! idx = p
     \<and> mset (entries h') = mset (entries h)
     \<and> size' h' = size' h
     \<and> heap_inv h'
     \<and> heap_wf h'"
proof -
  let ?ps = "priorities h" and ?hp = "heap h" and ?sz = "size' h"
  let ?ps' = "?ps[idx := p]"
  have sz: "?sz < length ?hp" and len: "length ?hp = 2500"
    and inr: "\<forall>x \<in> set (slots ?hp ?sz). x < length ?ps"
    using assms(1) by (auto simp: heap_wf_def entries_def)
  have ord: "heap_ord ?ps ?hp ?sz"
    using assms(2) by (simp add: heap_inv_def)
  have "idx \<in> set (slots ?hp ?sz)"
    using assms(3) count_list_0_iff[of "entries h" idx] by (auto simp: entries_def)
  then have ex: "\<exists>i. 1 \<le> i \<and> i \<le> ?sz \<and> ?hp ! i = idx" and idx: "idx < length ?ps"
    using inr unfolding set_slots[OF sz] by auto
  from update_from_scan[OF ex, of p] obtain k where k: "1 \<le> k" "k \<le> ?sz" "?hp ! k = idx"
    and u: "update_heap h idx p =
         (case bubble_up ?ps' ?hp k of
            None \<Rightarrow> None
          | Some hp' \<Rightarrow> Some (h\<lparr>priorities := ?ps', heap := hp'\<rparr>))"
    unfolding update_heap_def by blast
  have uniq: "\<forall>i. 1 \<le> i \<and> i \<le> ?sz \<and> ?hp ! i = idx \<longrightarrow> i = k"
    using slot_unique[OF _ sz _ _ k(1,2) _ k(3)] assms(3) by (auto simp: entries_def)
  have "ord_except_up ?ps' ?hp ?sz k"
    by (rule decrease_except_up[OF sz inr ord k uniq assms(4)])
  from bubble_up_correct[OF k(1,2) sz this]
  obtain hp' where hp': "bubble_up ?ps' ?hp k = Some hp'" "heap_ord ?ps' hp' ?sz"
    "length hp' = length ?hp" "mset (slots hp' ?sz) = mset (slots ?hp ?sz)"
    by blast
  have "set (slots hp' ?sz) = set (slots ?hp ?sz)"
    using hp'(4) by (rule mset_eq_setD)
  then have "\<forall>x \<in> set (slots hp' ?sz). x < length ?ps'"
    using inr by simp
  then show ?thesis
    unfolding u hp'(1) using hp'(2,3,4) idx len sz
    by (simp add: heap_inv_def heap_wf_def entries_def)
qed

theorem update_decrease_key_witness:
  "\<exists>h'. update_heap small_heap 1 0 = Some h' \<and> priorities h' = [1, 0, 2] \<and> heap_inv h'
     \<and> mset (entries h') = {#0, 1, 2#}"
proof -
  have e: "entries small_heap = [0, 1, 2]" by (simp add: small_heap_def entries_def slots_def)
  have c: "count_list (entries small_heap) 1 = 1" unfolding e by simp
  have le: "(0::nat) \<le> priorities small_heap ! 1" by simp
  show ?thesis
    using update_decrease_key [OF small_heap_wf small_heap_inv c le] e by (auto simp: small_heap_def)
qed

end
